theory Spec2Isabelle
  imports Main
begin

section \<open>Characters and whitespace\<close>

text \<open>
  A Python \<open>str\<close> is modelled as a \<^typ>\<open>string\<close>, one \<^typ>\<open>char\<close> per code point (the
  code points below 256). A one-character \<open>str\<close> (a symbol, a tape cell, a direction) is a
  \<^typ>\<open>char\<close>.

  \<open>str.strip\<close>, \<open>str.rstrip\<close> and the pattern \<open>\s\<close> all use the same test
  (\<open>Py_UNICODE_ISSPACE\<close>): the code points 9 to 13, 28 to 32, 133 and 160.
\<close>

definition isspace :: "char \<Rightarrow> bool" where
  "isspace c = (c \<in> set [CHR 0x09, CHR 0x0A, CHR 0x0B, CHR 0x0C, CHR 0x0D,
                          CHR 0x1C, CHR 0x1D, CHR 0x1E, CHR 0x1F, CHR 0x20,
                          CHR 0x85, CHR 0xA0])"

definition lstrip :: "string \<Rightarrow> string" where
  "lstrip s = dropWhile isspace s"

definition rstrip :: "string \<Rightarrow> string" where
  "rstrip s = rev (dropWhile isspace (rev s))"

definition strip :: "string \<Rightarrow> string" where
  "strip s = rstrip (lstrip s)"

section \<open>The fragment of Python's \<open>re\<close> that the line pattern uses\<close>

text \<open>
  \<open>re.match\<close> anchors the pattern at the start of the string and returns the first match
  that a backtracking search finds: a greedy repetition tries the longest run first, an
  optional part is tried before it is skipped, the left branch of an alternative before
  the right one. The matcher below returns every match in that order of preference, as
  pairs of the text still to be read and the groups captured so far; the head of the
  list is the match that \<open>re.match\<close> returns.

  Repetition is only ever applied to a single-character item in the pattern, so
  \<open>Plus\<close> and \<open>Star\<close> take one.
\<close>

datatype item =
    Lit char              \<comment> \<open>a literal character\<close>
  | Dot                   \<comment> \<open>\<open>.\<close>: any character but a newline\<close>
  | OneOf "char list"     \<comment> \<open>\<open>[...]\<close>\<close>
  | NoneOf "char list"    \<comment> \<open>\<open>[^...]\<close>\<close>
  | Space                 \<comment> \<open>\<open>\s\<close>\<close>

datatype regex =
    One item
  | Plus item             \<comment> \<open>\<open>x+\<close>, greedy\<close>
  | Star item             \<comment> \<open>\<open>x*\<close>, greedy\<close>
  | Seq regex regex
  | Alt regex regex       \<comment> \<open>\<open>r|s\<close>\<close>
  | Opt regex             \<comment> \<open>\<open>(?:r)?\<close>, greedy\<close>
  | Group nat regex       \<comment> \<open>\<open>(r)\<close>, the capturing group of that number\<close>
  | Ahead regex           \<comment> \<open>\<open>(?=r)\<close>\<close>
  | NotAhead regex        \<comment> \<open>\<open>(?!r)\<close>\<close>
  | Dollar                \<comment> \<open>\<open>$\<close>: the end, or just before a newline that ends the string\<close>

type_synonym captures = "nat \<rightharpoonup> string"
type_synonym mstate = "string \<times> captures"

fun accepts :: "item \<Rightarrow> char \<Rightarrow> bool" where
  "accepts (Lit a) c = (c = a)"
| "accepts Dot c = (c \<noteq> CHR 0x0A)"
| "accepts (OneOf cs) c = (c \<in> set cs)"
| "accepts (NoneOf cs) c = (c \<notin> set cs)"
| "accepts Space c = isspace c"

text \<open>The texts left after \<open>x*\<close>, the longest run first.\<close>

fun star_rests :: "item \<Rightarrow> string \<Rightarrow> string list" where
  "star_rests i [] = [[]]"
| "star_rests i (c # cs) = (if accepts i c then star_rests i cs @ [c # cs] else [c # cs])"

fun plus_rests :: "item \<Rightarrow> string \<Rightarrow> string list" where
  "plus_rests i [] = []"
| "plus_rests i (c # cs) = (if accepts i c then star_rests i cs else [])"

fun rmatch :: "regex \<Rightarrow> mstate \<Rightarrow> mstate list" where
  "rmatch (One i) (s, g) =
     (case s of [] \<Rightarrow> [] | c # cs \<Rightarrow> if accepts i c then [(cs, g)] else [])"
| "rmatch (Plus i) (s, g) = map (\<lambda>s'. (s', g)) (plus_rests i s)"
| "rmatch (Star i) (s, g) = map (\<lambda>s'. (s', g)) (star_rests i s)"
| "rmatch (Seq r1 r2) (s, g) = concat (map (rmatch r2) (rmatch r1 (s, g)))"
| "rmatch (Alt r1 r2) (s, g) = rmatch r1 (s, g) @ rmatch r2 (s, g)"
| "rmatch (Opt r) (s, g) = rmatch r (s, g) @ [(s, g)]"
| "rmatch (Group n r) (s, g) =
     map (\<lambda>(s', g'). (s', g'(n \<mapsto> take (length s - length s') s))) (rmatch r (s, g))"
| "rmatch (Ahead r) (s, g) =
     (case rmatch r (s, g) of [] \<Rightarrow> [] | (s', g') # _ \<Rightarrow> [(s, g')])"
| "rmatch (NotAhead r) (s, g) =
     (case rmatch r (s, g) of [] \<Rightarrow> [(s, g)] | _ # _ \<Rightarrow> [])"
| "rmatch Dollar (s, g) = (if s = [] \<or> s = [CHR 0x0A] then [(s, g)] else [])"

text \<open>\<open>pattern.match(s)\<close>: the groups of the first match, or \<open>None\<close>.\<close>

definition re_match :: "regex \<Rightarrow> string \<Rightarrow> captures option" where
  "re_match r s = (case rmatch r (s, Map.empty) of [] \<Rightarrow> None | (_, g) # _ \<Rightarrow> Some g)"

section \<open>The line pattern\<close>

text \<open>
  \<^verbatim>\<open>([^#]+),(.):(?:([^<>]|[<>](?=,[<>])),)?(?:([<>]),)?(?!\s*$)([^#]+)\<close>

  The flag \<open>re.IGNORECASE\<close> changes nothing: the pattern names no letter.
\<close>

definition symbol_out_rx :: regex where
  "symbol_out_rx =
     Opt (Seq (Group 3 (Alt (One (NoneOf ''<>''))
                            (Seq (One (OneOf ''<>''))
                                 (Ahead (Seq (One (Lit CHR '','')) (One (OneOf ''<>'')))))))
              (One (Lit CHR '','')))"

definition movement_rx :: regex where
  "movement_rx = Opt (Seq (Group 4 (One (OneOf ''<>''))) (One (Lit CHR '','')))"

definition state_out_rx :: regex where
  "state_out_rx = Seq (NotAhead (Seq (Star Space) Dollar)) (Group 5 (Plus (NoneOf ''#'')))"

definition tail_rx :: regex where
  "tail_rx = Seq symbol_out_rx (Seq movement_rx state_out_rx)"

definition rest_rx :: regex where
  "rest_rx = Seq (One (Lit CHR '','')) (Seq (Group 2 (One Dot)) (Seq (One (Lit CHR '':'')) tail_rx))"

definition regex :: regex where
  "regex = Seq (Group 1 (Plus (NoneOf ''#''))) rest_rx"

text \<open>
  \<open>regex.match(lin).groups()\<close>, as the five values the parser unpacks; groups 1, 2 and 5
  take part in every match, groups 3 and 4 are \<open>None\<close> when their optional part is skipped.
  Group 2 and, when set, groups 3 and 4 hold exactly one character.
\<close>

type_synonym groups = "string \<times> char \<times> char option \<times> char option \<times> string"

definition groups_of :: "captures \<Rightarrow> groups" where
  "groups_of g = (the (g 1), hd (the (g 2)), map_option hd (g 3), map_option hd (g 4), the (g 5))"

definition regex_match :: "string \<Rightarrow> groups option" where
  "regex_match lin = map_option groups_of (re_match regex lin)"

section \<open>The grammar parser\<close>

text \<open>
  \<open>parse_turing_machine\<close> reads the description line by line. What it writes to the standard
  error stream is kept as a list of events; the summary it prints to the standard output
  is not modelled (the initial tape is only an argument for that summary). \<open>sys_exit\<close> and
  the use of \<open>initial_state\<close> before any rule has bound it are the ways out other than
  \<open>return\<close>.
\<close>

datatype error =
    SystemExit nat          \<comment> \<open>\<open>sys_exit(code)\<close>\<close>
  | UnboundLocalError       \<comment> \<open>\<open>initial_state\<close> read before assignment\<close>
  | IndexError              \<comment> \<open>a tape index out of range\<close>

datatype event =
    Debug_parsing nat groups                      \<comment> \<open>\<open>DEBUG: result of parsing line n: groups\<close>\<close>
  | Syntax_error nat                              \<comment> \<open>\<open>ERROR: Syntax error at line n\<close>\<close>
  | Duplicated_transition nat "string \<times> char"     \<comment> \<open>\<open>WARNING: Duplicated transition found at line n : key. Overwriting\<close>\<close>
  | Read_error string                             \<comment> \<open>\<open>ERROR: Error while reading from path: cause\<close>\<close>

text \<open>The file: either opening it raises \<open>IOError\<close> with a cause, or it yields its lines.\<close>

datatype source = Unreadable string | Lines "string list"

type_synonym rule = "char \<times> char option \<times> string"
type_synonym table = "string \<times> char \<rightharpoonup> rule"

record pstate =
  states :: "string set"
  alphabet :: "char set"
  transitions :: table
  initial_state :: "string option"    \<comment> \<open>\<open>None\<close>: not bound yet\<close>
  stderr :: "event list"

definition start :: pstate where
  "start = \<lparr>states = {}, alphabet = {}, transitions = Map.empty, initial_state = None, stderr = []\<rparr>"

text \<open>What the loop body does with the groups of a matching line (\<open>lineno\<close> counts from 0).\<close>

definition add_rule :: "nat \<Rightarrow> groups \<Rightarrow> pstate \<Rightarrow> pstate" where
  "add_rule lineno grp st =
     (case grp of (state_in, symbol_in, symbol_out0, movement, state_out0) \<Rightarrow>
        let state_out = rstrip state_out0;
            initial_state' = (if states st = {} then Some state_in else initial_state st);
            symbol_out = (case symbol_out0 of None \<Rightarrow> symbol_in | Some c \<Rightarrow> c);
            states' = states st \<union> {state_in, state_out};
            alphabet' = alphabet st \<union> {symbol_in, symbol_out};
            stderr' = (if (state_in, symbol_in) \<in> dom (transitions st)
                       then stderr st @ [Duplicated_transition (lineno + 1) (state_in, symbol_in)]
                       else stderr st)
        in \<lparr>states = states', alphabet = alphabet',
            transitions = (transitions st)((state_in, symbol_in) \<mapsto> (symbol_out, movement, state_out)),
            initial_state = initial_state', stderr = stderr'\<rparr>)"

text \<open>A line that the loop skips: blank, or a comment.\<close>

definition skipped :: "string \<Rightarrow> bool" where
  "skipped line = (let lin = strip line in lin = [] \<or> hd lin = CHR ''#'')"

text \<open>
  The loop over \<open>enumerate(f)\<close>. On a line that does not match, \<open>regex.match\<close> returns
  \<open>None\<close>, \<open>.groups()\<close> raises \<open>AttributeError\<close> (in the debug print or in the unpacking,
  whichever comes first), and the handler reports the line and exits with code 1: the
  result is then the error and what was written to the error stream.
\<close>

fun parse_loop :: "bool \<Rightarrow> nat \<Rightarrow> string list \<Rightarrow> pstate \<Rightarrow> (error \<times> event list) + pstate" where
  "parse_loop debug lineno [] st = Inr st"
| "parse_loop debug lineno (line # rest) st =
     (if skipped line then parse_loop debug (lineno + 1) rest st
      else case regex_match (strip line) of
          None \<Rightarrow> Inl (SystemExit 1, stderr st @ [Syntax_error (lineno + 1)])
        | Some grp \<Rightarrow>
            let st1 = (if debug then st\<lparr>stderr := stderr st @ [Debug_parsing (lineno + 1) grp]\<rparr> else st)
            in parse_loop debug (lineno + 1) rest (add_rule lineno grp st1))"

type_synonym machine = "char set \<times> string set \<times> string \<times> table"

definition parse_turing_machine :: "bool \<Rightarrow> source \<Rightarrow> event list \<times> (error + machine)" where
  "parse_turing_machine debug file =
     (case file of
        Unreadable cause \<Rightarrow> ([Read_error cause], Inl (SystemExit 74))
      | Lines ls \<Rightarrow>
          (case parse_loop debug 0 ls start of
             Inl (e, log) \<Rightarrow> (log, Inl e)
           | Inr st \<Rightarrow>
               (case initial_state st of
                  None \<Rightarrow> (stderr st, Inl UnboundLocalError)
                | Some q \<Rightarrow> (stderr st, Inr (alphabet st - {CHR '' ''}, states st, q, transitions st)))))"

section \<open>The simulation engine\<close>

text \<open>
  The tape is a deque of one-character strings: a list of characters here. An index into
  it is a Python integer; a negative one counts from the end, and one out of range raises
  \<open>IndexError\<close>. The debug traces of the engine are not modelled: they read the cell that
  the loop condition reads next and change nothing.
\<close>

definition tape_get :: "char list \<Rightarrow> int \<Rightarrow> error + char" where
  "tape_get t i =
     (let n = int (length t); j = (if i < 0 then i + n else i)
      in if 0 \<le> j \<and> j < n then Inr (t ! nat j) else Inl IndexError)"

definition tape_set :: "char list \<Rightarrow> int \<Rightarrow> char \<Rightarrow> error + char list" where
  "tape_set t i v =
     (let n = int (length t); j = (if i < 0 then i + n else i)
      in if 0 \<le> j \<and> j < n then Inr (t[nat j := v]) else Inl IndexError)"

record config =
  current_state :: string
  tape :: "char list"
  current_index :: int

text \<open>
  One test of the loop condition and, when it holds, one run of the loop body:
  \<open>Inr None\<close> when no transition applies, \<open>Inr (Some c')\<close> after a transition.
\<close>

definition step :: "table \<Rightarrow> config \<Rightarrow> error + config option" where
  "step tbl c =
     (case tape_get (tape c) (current_index c) of
        Inl e \<Rightarrow> Inl e
      | Inr symbol \<Rightarrow>
          (case tbl (current_state c, symbol) of
             None \<Rightarrow> Inr None
           | Some (output_symbol, movement_direction, next_state) \<Rightarrow>
               (case tape_set (tape c) (current_index c) output_symbol of
                  Inl e \<Rightarrow> Inl e
                | Inr t1 \<Rightarrow>
                    let i1 = (if movement_direction = Some CHR ''>'' then current_index c + 1
                              else if movement_direction = Some CHR ''<'' then current_index c - 1
                              else current_index c)
                    in if i1 < 0 then
                         Inr (Some \<lparr>current_state = next_state, tape = CHR '' '' # t1, current_index = 0\<rparr>)
                       else if i1 = int (length t1) then
                         Inr (Some \<lparr>current_state = next_state, tape = t1 @ [CHR '' ''], current_index = i1\<rparr>)
                       else
                         Inr (Some \<lparr>current_state = next_state, tape = t1, current_index = i1\<rparr>))))"

text \<open>The main loop; it need not end, and then its value is \<open>None\<close>.\<close>

partial_function (option) run :: "table \<Rightarrow> config \<Rightarrow> (error + config) option" where
  "run tbl c =
     (case step tbl c of
        Inl e \<Rightarrow> Some (Inl e)
      | Inr None \<Rightarrow> Some (Inr c)
      | Inr (Some c') \<Rightarrow> run tbl c')"

text \<open>The same loop cut after \<open>n\<close> tests of its condition: where the machine is by then.\<close>

fun run_upto :: "nat \<Rightarrow> table \<Rightarrow> config \<Rightarrow> error + config" where
  "run_upto 0 tbl c = Inr c"
| "run_upto (Suc n) tbl c =
     (case step tbl c of
        Inl e \<Rightarrow> Inl e
      | Inr None \<Rightarrow> Inr c
      | Inr (Some c') \<Rightarrow> run_upto n tbl c')"

text \<open>The two loops that remove the blanks at the ends of the tape.\<close>

function pop_trailing :: "char list \<Rightarrow> char list" where
  "pop_trailing t = (if t \<noteq> [] \<and> last t = CHR '' '' then pop_trailing (butlast t) else t)"
  by pat_completeness auto
termination
  by (relation "measure length") auto

function pop_leading :: "char list \<Rightarrow> char list" where
  "pop_leading t = (if t \<noteq> [] \<and> hd t = CHR '' '' then pop_leading (tl t) else t)"
  by pat_completeness auto
termination
  by (relation "measure length") auto

definition trim :: "char list \<Rightarrow> char list" where
  "trim t = pop_leading (pop_trailing t)"

definition simulate_turing_machine ::
    "char list \<Rightarrow> string \<Rightarrow> table \<Rightarrow> (error + string \<times> char list) option" where
  "simulate_turing_machine tape0 initial tbl =
     (if tape0 = [] then Some (Inr (initial, []))
      else case run tbl \<lparr>current_state = initial, tape = tape0, current_index = 0\<rparr> of
          None \<Rightarrow> None
        | Some (Inl e) \<Rightarrow> Some (Inl e)
        | Some (Inr c) \<Rightarrow> Some (Inr (current_state c, trim (tape c))))"

section \<open>The engine with its table lookups and tape mutations recorded\<close>

text \<open>
  The same engine, returning besides its result the list, in order, of what it did to
  the table and to the tape: each membership test and each read of the table, each write
  of a cell, each cell added at an end by the loop and each cell removed by the two
  trimming loops. Reads of the tape are not recorded.
\<close>

datatype effect =
    Contains "string \<times> char"      \<comment> \<open>\<open>key in transitions\<close>\<close>
  | Getitem "string \<times> char"       \<comment> \<open>\<open>transitions[key]\<close>\<close>
  | Setitem int char                \<comment> \<open>\<open>tape[i] = symbol\<close>\<close>
  | Appendleft char                 \<comment> \<open>\<open>tape.appendleft(symbol)\<close>\<close>
  | Append char                     \<comment> \<open>\<open>tape.append(symbol)\<close>\<close>
  | Pop                             \<comment> \<open>\<open>tape.pop()\<close>\<close>
  | Popleft                         \<comment> \<open>\<open>tape.popleft()\<close>\<close>

definition step_traced :: "table \<Rightarrow> config \<Rightarrow> (error + config option) \<times> effect list" where
  "step_traced tbl c =
     (case tape_get (tape c) (current_index c) of
        Inl e \<Rightarrow> (Inl e, [])
      | Inr symbol \<Rightarrow>
          (case tbl (current_state c, symbol) of
             None \<Rightarrow> (Inr None, [Contains (current_state c, symbol)])
           | Some (output_symbol, movement_direction, next_state) \<Rightarrow>
               (case tape_set (tape c) (current_index c) output_symbol of
                  Inl e \<Rightarrow> (Inl e, [Contains (current_state c, symbol), Getitem (current_state c, symbol)])
                | Inr t1 \<Rightarrow>
                    let i1 = (if movement_direction = Some CHR ''>'' then current_index c + 1
                              else if movement_direction = Some CHR ''<'' then current_index c - 1
                              else current_index c);
                        made = [Contains (current_state c, symbol), Getitem (current_state c, symbol),
                                Setitem (current_index c) output_symbol]
                    in if i1 < 0 then
                         (Inr (Some \<lparr>current_state = next_state, tape = CHR '' '' # t1, current_index = 0\<rparr>),
                          made @ [Appendleft CHR '' ''])
                       else if i1 = int (length t1) then
                         (Inr (Some \<lparr>current_state = next_state, tape = t1 @ [CHR '' ''], current_index = i1\<rparr>),
                          made @ [Append CHR '' ''])
                       else
                         (Inr (Some \<lparr>current_state = next_state, tape = t1, current_index = i1\<rparr>), made))))"

partial_function (option) run_traced ::
    "table \<Rightarrow> config \<Rightarrow> effect list \<Rightarrow> ((error + config) \<times> effect list) option" where
  "run_traced tbl c tr =
     (case step_traced tbl c of
        (Inl e, es) \<Rightarrow> Some (Inl e, tr @ es)
      | (Inr None, es) \<Rightarrow> Some (Inr c, tr @ es)
      | (Inr (Some c'), es) \<Rightarrow> run_traced tbl c' (tr @ es))"

function pop_trailing_traced :: "char list \<Rightarrow> char list \<times> effect list" where
  "pop_trailing_traced t =
     (if t \<noteq> [] \<and> last t = CHR '' ''
      then (case pop_trailing_traced (butlast t) of (t', es) \<Rightarrow> (t', Pop # es))
      else (t, []))"
  by pat_completeness auto
termination
  by (relation "measure length") auto

function pop_leading_traced :: "char list \<Rightarrow> char list \<times> effect list" where
  "pop_leading_traced t =
     (if t \<noteq> [] \<and> hd t = CHR '' ''
      then (case pop_leading_traced (tl t) of (t', es) \<Rightarrow> (t', Popleft # es))
      else (t, []))"
  by pat_completeness auto
termination
  by (relation "measure length") auto

definition simulate_traced ::
    "char list \<Rightarrow> string \<Rightarrow> table \<Rightarrow> ((error + string \<times> char list) \<times> effect list) option" where
  "simulate_traced tape0 initial tbl =
     (if tape0 = [] then Some (Inr (initial, []), [])
      else case run_traced tbl \<lparr>current_state = initial, tape = tape0, current_index = 0\<rparr> [] of
          None \<Rightarrow> None
        | Some (Inl e, tr) \<Rightarrow> Some (Inl e, tr)
        | Some (Inr c, tr) \<Rightarrow>
            (case pop_trailing_traced (tape c) of
               (t1, es1) \<Rightarrow>
                 (case pop_leading_traced t1 of
                    (t2, es2) \<Rightarrow> Some (Inr (current_state c, t2), tr @ es1 @ es2))))"

declare pop_trailing_traced.simps [simp del] pop_leading_traced.simps [simp del]

section \<open>Auxiliary notions and example machines\<close>

text \<open>The head is on a cell of the tape.\<close>

definition in_bounds :: "config \<Rightarrow> bool" where
  "in_bounds c = (0 \<le> current_index c \<and> current_index c < int (length (tape c)))"

text \<open>The table of the unary increment machine: the rules \<open>q0,1:>,q0\<close> and \<open>q0, :1,qf\<close>.\<close>

definition increment_table :: table where
  "increment_table =
     [(''q0'', CHR ''1'') \<mapsto> (CHR ''1'', Some CHR ''>'', ''q0''),
      (''q0'', CHR '' '') \<mapsto> (CHR ''1'', None, ''qf'')]"

text \<open>A table that leaves the tape once on the left and once on the right.\<close>

definition bounce_table :: table where
  "bounce_table =
     [(''q0'', CHR ''1'') \<mapsto> (CHR ''1'', Some CHR ''<'', ''q1''),
      (''q1'', CHR '' '') \<mapsto> (CHR '' '', Some CHR ''>'', ''q2''),
      (''q2'', CHR ''1'') \<mapsto> (CHR ''1'', Some CHR ''>'', ''q3'')]"

text \<open>
  A line that the loop gets past: it is skipped, or the pattern matches it.
\<close>

definition accepted :: "string \<Rightarrow> bool" where
  "accepted line = (if skipped line then True else regex_match (strip line) \<noteq> None)"

text \<open>The key under which a rule line stores its transition; \<open>None\<close> for any other line.\<close>

definition key_of :: "string \<Rightarrow> (string \<times> char) option" where
  "key_of line =
     (if skipped line then None
      else case regex_match (strip line) of
          None \<Rightarrow> None
        | Some (state_in, symbol_in, symbol_out, movement, state_out) \<Rightarrow> Some (state_in, symbol_in))"

fun rule_keys :: "string list \<Rightarrow> (string \<times> char) list" where
  "rule_keys [] = []"
| "rule_keys (l # ls) = (case key_of l of None \<Rightarrow> rule_keys ls | Some k \<Rightarrow> k # rule_keys ls)"

text \<open>The duplicate-transition warnings among the events, and those about one key.\<close>

fun is_warning :: "event \<Rightarrow> bool" where
  "is_warning (Duplicated_transition n k) = True"
| "is_warning e = False"

fun warns_about :: "string \<times> char \<Rightarrow> event \<Rightarrow> bool" where
  "warns_about k (Duplicated_transition n k') = (k' = k)"
| "warns_about k e = False"

text \<open>The debug print of the loop body, as a step of its own.\<close>

definition debug_print :: "bool \<Rightarrow> nat \<Rightarrow> groups \<Rightarrow> pstate \<Rightarrow> pstate" where
  "debug_print debug lineno grp st =
     (if debug then st\<lparr>stderr := stderr st @ [Debug_parsing (lineno + 1) grp]\<rparr> else st)"


declare pop_trailing.simps [simp del] pop_leading.simps [simp del]

section \<open>Evaluating the pattern and the loops\<close>

lemmas pattern_defs =
  regex_match_def re_match_def regex_def rest_rx_def tail_rx_def state_out_rx_def
  movement_rx_def symbol_out_rx_def groups_of_def isspace_def

lemmas strip_defs = strip_def lstrip_def rstrip_def

lemma run_upto_halted:
  "run_upto n tbl c = Inr c' \<Longrightarrow> step tbl c' = Inr None \<Longrightarrow> run tbl c = Some (Inr c')"
proof (induction n arbitrary: c)
  case 0
  then show ?case by (simp add: run.simps)
next
  case (Suc n)
  then show ?case
    by (subst run.simps) (auto split: sum.splits option.splits)
qed

section \<open>A comma as input symbol\<close>

text \<open>
  Claim C10. The line \<open>a,,:b,q0\<close> is accepted: its input symbol is the comma, the key of
  its rule is \<open>(a, ,)\<close>, the symbol written is \<open>b\<close>, there is no movement and the next
  state is \<open>q0\<close>; parsing a file made of that line reports nothing and stores that rule.
\<close>

theorem comma_symbol_in_accepted:
  "regex_match ''a,,:b,q0'' = Some (''a'', CHR '','', Some CHR ''b'', None, ''q0'') \<and>
   (case parse_turing_machine False (Lines [''a,,:b,q0'']) of
      (log, Inr (alph, sts, q, tbl)) \<Rightarrow>
        log = [] \<and> tbl (''a'', CHR '','') = Some (CHR ''b'', None, ''q0'')
    | (log, Inl e) \<Rightarrow> False)"
proof -
  have m: "regex_match ''a,,:b,q0'' = Some (''a'', CHR '','', Some CHR ''b'', None, ''q0'')"
    by (simp add: pattern_defs)
  have s: "strip ''a,,:b,q0'' = ''a,,:b,q0''"
    by (simp add: strip_defs isspace_def)
  have r: "rstrip ''q0'' = ''q0''"
    by (simp add: rstrip_def isspace_def)
  show ?thesis
    by (simp add: m s r parse_turing_machine_def skipped_def add_rule_def start_def Let_def)
qed

section \<open>The unary increment machine\<close>

lemma increment_line_1:
  "strip ''q0,1:>,q0\<newline>'' = ''q0,1:>,q0''"
  "regex_match ''q0,1:>,q0'' = Some (''q0'', CHR ''1'', None, Some CHR ''>'', ''q0'')"
  by (simp_all add: strip_defs pattern_defs)

lemma increment_line_2:
  "strip ''q0, :1,qf\<newline>'' = ''q0, :1,qf''"
  "regex_match ''q0, :1,qf'' = Some (''q0'', CHR '' '', Some CHR ''1'', None, ''qf'')"
  by (simp_all add: strip_defs pattern_defs)

lemma increment_states:
  "rstrip ''q0'' = ''q0''" "rstrip ''qf'' = ''qf''"
  by (simp_all add: rstrip_def isspace_def)

lemma increment_parsed:
  "parse_turing_machine False (Lines [''q0,1:>,q0\<newline>'', ''q0, :1,qf\<newline>'']) =
     ([], Inr ({CHR ''1''}, {''q0'', ''qf''}, ''q0'', increment_table))"
  apply (simp add: parse_turing_machine_def skipped_def increment_line_1 increment_line_2
      increment_states add_rule_def start_def Let_def increment_table_def del: append.simps)
  apply auto
  done

lemma increment_run:
  "run increment_table \<lparr>current_state = ''q0'', tape = ''111'', current_index = 0\<rparr> =
     Some (Inr \<lparr>current_state = ''qf'', tape = ''1111'', current_index = 3\<rparr>)"
proof (rule run_upto_halted [where n = 5])
  show "run_upto 5 increment_table \<lparr>current_state = ''q0'', tape = ''111'', current_index = 0\<rparr> =
      Inr \<lparr>current_state = ''qf'', tape = ''1111'', current_index = 3\<rparr>"
    by (simp add: eval_nat_numeral step_def tape_get_def tape_set_def increment_table_def Let_def)
  show "step increment_table \<lparr>current_state = ''qf'', tape = ''1111'', current_index = 3\<rparr> = Inr None"
    by (simp add: step_def tape_get_def increment_table_def Let_def)
qed

text \<open>
  Claim C6. The file with the two lines \<open>q0,1:>,q0\<close> and \<open>q0, :1,qf\<close> parses to a machine
  with initial state \<open>q0\<close>, and the engine run on that machine's table from \<open>q0\<close> on the
  tape \<open>111\<close> halts in state \<open>qf\<close> with the tape \<open>1111\<close>.
\<close>

theorem unary_increment:
  "(case parse_turing_machine False (Lines [''q0,1:>,q0\<newline>'', ''q0, :1,qf\<newline>'']) of
      (log, Inr (alph, sts, q, tbl)) \<Rightarrow>
        q = ''q0'' \<and> simulate_turing_machine ''111'' q tbl = Some (Inr (''qf'', ''1111''))
    | (log, Inl e) \<Rightarrow> False)"
  using increment_parsed
  by (simp add: simulate_turing_machine_def increment_run trim_def pop_trailing.simps pop_leading.simps)

section \<open>Trimming the tape\<close>

lemma pop_trailing_dropWhile:
  "pop_trailing t = rev (dropWhile (\<lambda>c. c = CHR '' '') (rev t))"
proof (induction t rule: pop_trailing.induct)
  case (1 t)
  show ?case
  proof (cases "t \<noteq> [] \<and> last t = CHR '' ''")
    case True
    then obtain ys where t: "t = ys @ [CHR '' '']"
      by (metis append_butlast_last_id)
    from True 1 have "pop_trailing (butlast t) = rev (dropWhile (\<lambda>c. c = CHR '' '') (rev (butlast t)))"
      by simp
    with True t show ?thesis
      by (subst pop_trailing.simps) simp
  next
    case False
    then show ?thesis
      by (subst pop_trailing.simps) (cases t rule: rev_cases; auto)
  qed
qed

lemma pop_leading_dropWhile:
  "pop_leading t = dropWhile (\<lambda>c. c = CHR '' '') t"
proof (induction t)
  case Nil
  show ?case by (subst pop_leading.simps) simp
next
  case (Cons a t)
  then show ?case by (subst pop_leading.simps) simp
qed

lemma trim_dropWhile:
  "trim t = dropWhile (\<lambda>c. c = CHR '' '') (rev (dropWhile (\<lambda>c. c = CHR '' '') (rev t)))"
  by (simp add: trim_def pop_trailing_dropWhile pop_leading_dropWhile)

lemma blanks_replicate:
  "\<forall>c\<in>set xs. c = CHR '' '' \<Longrightarrow> replicate (length xs) CHR '' '' = xs"
  by (induction xs) auto

lemma takeWhile_blank_replicate:
  "takeWhile (\<lambda>c. c = CHR '' '') xs = replicate (length (takeWhile (\<lambda>c. c = CHR '' '') xs)) CHR '' ''"
  by (rule blanks_replicate [symmetric]) (auto dest: set_takeWhileD)

lemma trim_decompose:
  "\<exists>a b. t = replicate a CHR '' '' @ trim t @ replicate b CHR '' ''"
proof -
  let ?P = "\<lambda>c. c = CHR '' ''"
  let ?m = "rev (dropWhile ?P (rev t))"
  let ?a = "length (takeWhile ?P ?m)"
  let ?b = "length (takeWhile ?P (rev t))"
  have "rev (rev t) = rev (takeWhile ?P (rev t) @ dropWhile ?P (rev t))"
    by simp
  then have 1: "t = ?m @ rev (takeWhile ?P (rev t))"
    by (simp only: rev_append rev_rev_ident)
  have 2: "?m = takeWhile ?P ?m @ trim t"
    by (simp add: trim_dropWhile)
  have 3: "rev (takeWhile ?P (rev t)) = replicate ?b CHR '' ''"
    by (subst takeWhile_blank_replicate) (simp only: rev_replicate)
  have 4: "takeWhile ?P ?m = replicate ?a CHR '' ''"
    by (rule takeWhile_blank_replicate)
  have "t = (takeWhile ?P ?m @ trim t) @ rev (takeWhile ?P (rev t))"
    using 1 2 by simp
  then have "t = replicate ?a CHR '' '' @ trim t @ replicate ?b CHR '' ''"
    using 3 4 by simp
  then show ?thesis by blast
qed

lemma trim_ends:
  assumes "trim t \<noteq> []"
  shows "hd (trim t) \<noteq> CHR '' ''" "last (trim t) \<noteq> CHR '' ''"
proof -
  let ?P = "\<lambda>c. c = CHR '' ''"
  let ?m = "rev (dropWhile ?P (rev t))"
  show "hd (trim t) \<noteq> CHR '' ''"
    using assms hd_dropWhile[of ?P ?m] by (simp add: trim_dropWhile)
  have m: "?m \<noteq> []"
  proof
    assume "?m = []"
    then have "trim t = dropWhile ?P []"
      by (simp only: trim_dropWhile)
    with assms show False by simp
  qed
  then have nb: "\<not> ?P (last ?m)"
    using hd_dropWhile[of ?P "rev t"] by (simp add: last_rev)
  have eq: "takeWhile ?P ?m @ trim t = ?m"
    by (simp add: trim_dropWhile)
  have "last (trim t) = last (takeWhile ?P ?m @ trim t)"
    using assms by simp
  also have "\<dots> = last ?m"
    by (simp only: eq)
  finally show "last (trim t) \<noteq> CHR '' ''"
    using nb by simp
qed

lemma dropWhile_id: "xs \<noteq> [] \<Longrightarrow> \<not> P (hd xs) \<Longrightarrow> dropWhile P xs = xs"
  by (cases xs) auto

lemma trim_idem: "trim (trim t) = trim t"
proof (cases "trim t = []")
  case True
  have e: "trim [] = []"
    by (simp add: trim_dropWhile)
  show ?thesis
    by (simp only: True e)
next
  case False
  let ?P = "\<lambda>c. c = CHR '' ''"
  have h: "\<not> ?P (hd (trim t))" and l: "\<not> ?P (last (trim t))"
    using trim_ends[OF False] by simp_all
  have r: "rev (trim t) \<noteq> []" "hd (rev (trim t)) = last (trim t)"
    using False by (simp_all add: hd_rev)
  have 1: "dropWhile ?P (rev (trim t)) = rev (trim t)"
    by (rule dropWhile_id) (simp_all only: r l not_False_eq_True)
  have 2: "dropWhile ?P (trim t) = trim t"
    by (rule dropWhile_id) (rule False, rule h)
  have "trim (trim t) = dropWhile ?P (rev (dropWhile ?P (rev (trim t))))"
    by (rule trim_dropWhile)
  also have "\<dots> = dropWhile ?P (rev (rev (trim t)))"
    by (simp only: 1)
  also have "\<dots> = trim t"
    by (simp only: rev_rev_ident 2)
  finally show ?thesis .
qed


text \<open>
  Claim C7. Once the loop has halted, the engine returns the tape trimmed: first the loop
  that pops blanks from the right end runs, then the loop that pops blanks from the left
  end. The first removes exactly the blanks that end the tape, the second exactly those
  that start it; what is removed is a run of blanks on each side, so no blank between two
  other cells is lost, and what is left neither starts nor ends with a blank. Trimming a
  trimmed tape changes nothing.
\<close>

theorem trim_strips_both_ends:
  "(tape0 \<noteq> [] \<and>
      run tbl \<lparr>current_state = q, tape = tape0, current_index = 0\<rparr> = Some (Inr c) \<longrightarrow>
      simulate_turing_machine tape0 q tbl = Some (Inr (current_state c, trim (tape c)))) \<and>
   trim t = pop_leading (pop_trailing t) \<and>
   pop_trailing t = rev (dropWhile (\<lambda>c. c = CHR '' '') (rev t)) \<and>
   pop_leading t = dropWhile (\<lambda>c. c = CHR '' '') t \<and>
   (\<exists>a b. t = replicate a CHR '' '' @ trim t @ replicate b CHR '' '') \<and>
   (trim t \<noteq> [] \<longrightarrow> hd (trim t) \<noteq> CHR '' '' \<and> last (trim t) \<noteq> CHR '' '') \<and>
   trim (trim t) = trim t"
proof (intro conjI impI)
  assume "tape0 \<noteq> [] \<and>
      run tbl \<lparr>current_state = q, tape = tape0, current_index = 0\<rparr> = Some (Inr c)"
  then show "simulate_turing_machine tape0 q tbl = Some (Inr (current_state c, trim (tape c)))"
    by (simp add: simulate_turing_machine_def)
next
  show "trim t = pop_leading (pop_trailing t)"
    by (rule trim_def)
  show "pop_trailing t = rev (dropWhile (\<lambda>c. c = CHR '' '') (rev t))"
    by (rule pop_trailing_dropWhile)
  show "pop_leading t = dropWhile (\<lambda>c. c = CHR '' '') t"
    by (rule pop_leading_dropWhile)
  show "\<exists>a b. t = replicate a CHR '' '' @ trim t @ replicate b CHR '' ''"
    by (rule trim_decompose)
  show "trim (trim t) = trim t"
    by (rule trim_idem)
next
  assume "trim t \<noteq> []"
  then show "hd (trim t) \<noteq> CHR '' ''" "last (trim t) \<noteq> CHR '' ''"
    by (rule trim_ends)+
qed

lemma trim_example: "trim ''  1 1 '' = ''1 1''"
  by (simp add: trim_dropWhile)

theorem trim_strips_both_ends_witness:
  "''111'' \<noteq> [] \<and>
   run increment_table \<lparr>current_state = ''q0'', tape = ''111'', current_index = 0\<rparr> =
     Some (Inr \<lparr>current_state = ''qf'', tape = ''1111'', current_index = 3\<rparr>) \<and>
   simulate_turing_machine ''111'' ''q0'' increment_table = Some (Inr (''qf'', trim ''1111'')) \<and>
   trim ''  1 1 '' = ''1 1'' \<and>
   hd (trim ''  1 1 '') \<noteq> CHR '' '' \<and> last (trim ''  1 1 '') \<noteq> CHR '' '' \<and>
   trim (trim ''  1 1 '') = trim ''  1 1 ''"
proof -
  note T = trim_strips_both_ends [of "''111''" increment_table "''q0''"
      "\<lparr>current_state = ''qf'', tape = ''1111'', current_index = 3\<rparr>" "''  1 1 ''"]
  have ne: "trim ''  1 1 '' \<noteq> []"
    by (simp add: trim_example)
  from T increment_run
  have "simulate_turing_machine ''111'' ''q0'' increment_table = Some (Inr (''qf'', trim ''1111''))"
    by simp
  moreover from T ne
  have "hd (trim ''  1 1 '') \<noteq> CHR '' '' \<and> last (trim ''  1 1 '') \<noteq> CHR '' ''"
    by blast
  moreover from T have "trim (trim ''  1 1 '') = trim ''  1 1 ''"
    by blast
  ultimately show ?thesis
    using increment_run trim_example by simp
qed

section \<open>The head stays on the tape\<close>

lemma step_in_bounds:
  "in_bounds c \<Longrightarrow> step tbl c = Inr (Some c') \<Longrightarrow> in_bounds c'"
  by (auto simp: step_def tape_get_def tape_set_def in_bounds_def Let_def
      split: sum.splits option.splits if_splits prod.splits)

lemma step_no_error:
  "in_bounds c \<Longrightarrow> step tbl c \<noteq> Inl e"
  by (auto simp: step_def tape_get_def tape_set_def in_bounds_def Let_def
      split: sum.splits option.splits if_splits prod.splits)

lemma run_upto_in_bounds:
  "in_bounds c \<Longrightarrow> \<exists>c'. run_upto n tbl c = Inr c' \<and> in_bounds c'"
proof (induction n arbitrary: c)
  case 0
  then show ?case by simp
next
  case (Suc n)
  show ?case
  proof (cases "step tbl c")
    case (Inl e)
    with Suc.prems show ?thesis by (simp add: step_no_error)
  next
    case (Inr res)
    show ?thesis
    proof (cases res)
      case None
      with Inr Suc.prems show ?thesis by simp
    next
      case (Some c')
      with Inr Suc.prems have "in_bounds c'" by (auto dest: step_in_bounds)
      from Suc.IH[OF this] Inr Some show ?thesis by simp
    qed
  qed
qed

lemma run_in_bounds:
  "run tbl c = Some r \<Longrightarrow> in_bounds c \<Longrightarrow> \<exists>c'. r = Inr c' \<and> in_bounds c' \<and> step tbl c' = Inr None"
proof (induction rule: run.raw_induct[rotated 1, consumes 1])
  case (1 run' tbl c r)
  show ?case
  proof (cases "step tbl c")
    case (Inl e)
    with 1 show ?thesis by (simp add: step_no_error)
  next
    case (Inr res)
    show ?thesis
    proof (cases res)
      case None
      with Inr 1 show ?thesis by auto
    next
      case (Some c')
      with Inr 1 have "in_bounds c'" by (auto dest: step_in_bounds)
      with 1 Inr Some show ?thesis by auto
    qed
  qed
qed


lemma in_bounds_get:
  "in_bounds c \<Longrightarrow> tape_get (tape c) (current_index c) = Inr (tape c ! nat (current_index c))"
  by (simp add: in_bounds_def tape_get_def)

lemma in_bounds_set:
  "in_bounds c \<Longrightarrow> tape_set (tape c) (current_index c) v = Inr ((tape c)[nat (current_index c) := v])"
  by (simp add: in_bounds_def tape_set_def)

lemma step_left_at_start:
  assumes "in_bounds c" "current_index c = 0"
    and "tbl (current_state c, tape c ! 0) = Some (w, Some CHR ''<'', q')"
  shows "step tbl c =
    Inr (Some \<lparr>current_state = q', tape = CHR '' '' # (tape c)[0 := w], current_index = 0\<rparr>)"
proof -
  have g: "tape_get (tape c) 0 = Inr (tape c ! 0)"
    using in_bounds_get [OF assms(1)] assms(2) by simp
  have s: "tape_set (tape c) 0 v = Inr ((tape c)[0 := v])" for v
    using in_bounds_set [OF assms(1), of v] assms(2) by simp
  show ?thesis
    using assms(2,3) by (simp add: step_def g s)
qed

lemma step_right_at_end:
  assumes "in_bounds c" "current_index c = int (length (tape c)) - 1"
    and "tbl (current_state c, tape c ! (length (tape c) - 1)) = Some (w, Some CHR ''>'', q')"
  shows "step tbl c =
    Inr (Some \<lparr>current_state = q', tape = (tape c)[length (tape c) - 1 := w] @ [CHR '' ''],
               current_index = int (length (tape c))\<rparr>)"
proof -
  let ?i = "int (length (tape c)) - 1"
  have n: "nat ?i = length (tape c) - 1"
    by (simp add: nat_diff_distrib)
  have g: "tape_get (tape c) ?i = Inr (tape c ! (length (tape c) - 1))"
    using in_bounds_get [OF assms(1)] assms(2) n by simp
  have s: "tape_set (tape c) ?i v = Inr ((tape c)[length (tape c) - 1 := v])" for v
    using in_bounds_set [OF assms(1), of v] assms(2) n by simp
  show ?thesis
    using assms(2,3) by (simp add: step_def g s)
qed

text \<open>
  Claim C8. When the engine starts on a non-empty tape, the head is on a cell of the tape
  at every test of the loop condition, however many transitions were made before, and so
  it is when the loop ends; from a configuration with the head on the tape no read or
  write raises \<open>IndexError\<close>, and a transition leads to such a configuration again. A move
  to the left from cell 0 puts one blank before the tape and leaves the head at 0; a move
  to the right from the last cell puts one blank after the tape and the head on it.
\<close>

theorem head_stays_on_tape:
  assumes "tape0 \<noteq> []"
  shows
   "(\<forall>n. \<exists>c. run_upto n tbl \<lparr>current_state = q, tape = tape0, current_index = 0\<rparr> = Inr c \<and>
           in_bounds c) \<and>
    (\<forall>r. run tbl \<lparr>current_state = q, tape = tape0, current_index = 0\<rparr> = Some r \<longrightarrow>
           (\<exists>c. r = Inr c \<and> in_bounds c)) \<and>
    (\<forall>c. in_bounds c \<longrightarrow>
           tape_get (tape c) (current_index c) = Inr (tape c ! nat (current_index c)) \<and>
           (\<forall>v. tape_set (tape c) (current_index c) v = Inr ((tape c)[nat (current_index c) := v])) \<and>
           (\<forall>e. step tbl c \<noteq> Inl e) \<and>
           (\<forall>c'. step tbl c = Inr (Some c') \<longrightarrow> in_bounds c')) \<and>
    (\<forall>c w q'. in_bounds c \<and> current_index c = 0 \<and>
           tbl (current_state c, tape c ! 0) = Some (w, Some CHR ''<'', q') \<longrightarrow>
           step tbl c =
             Inr (Some \<lparr>current_state = q', tape = CHR '' '' # (tape c)[0 := w], current_index = 0\<rparr>)) \<and>
    (\<forall>c w q'. in_bounds c \<and> current_index c = int (length (tape c)) - 1 \<and>
           tbl (current_state c, tape c ! (length (tape c) - 1)) = Some (w, Some CHR ''>'', q') \<longrightarrow>
           step tbl c =
             Inr (Some \<lparr>current_state = q', tape = (tape c)[length (tape c) - 1 := w] @ [CHR '' ''],
                        current_index = int (length (tape c))\<rparr>))"
proof -
  let ?c0 = "\<lparr>current_state = q, tape = tape0, current_index = 0\<rparr>"
  have c0: "in_bounds ?c0"
    using assms by (simp add: in_bounds_def)
  have 1: "\<forall>n. \<exists>c. run_upto n tbl ?c0 = Inr c \<and> in_bounds c"
    using run_upto_in_bounds [OF c0] by blast
  have 2: "\<forall>r. run tbl ?c0 = Some r \<longrightarrow> (\<exists>c. r = Inr c \<and> in_bounds c)"
    using run_in_bounds [OF _ c0] by blast
  have 3: "\<forall>c. in_bounds c \<longrightarrow>
           tape_get (tape c) (current_index c) = Inr (tape c ! nat (current_index c)) \<and>
           (\<forall>v. tape_set (tape c) (current_index c) v = Inr ((tape c)[nat (current_index c) := v])) \<and>
           (\<forall>e. step tbl c \<noteq> Inl e) \<and>
           (\<forall>c'. step tbl c = Inr (Some c') \<longrightarrow> in_bounds c')"
    using in_bounds_get in_bounds_set step_no_error step_in_bounds by blast
  show ?thesis
    using 1 2 3 step_left_at_start step_right_at_end by blast
qed

theorem head_stays_on_tape_witness:
  "''1'' \<noteq> [] \<and>
   in_bounds \<lparr>current_state = ''q0'', tape = ''1'', current_index = 0\<rparr> \<and>
   step bounce_table \<lparr>current_state = ''q0'', tape = ''1'', current_index = 0\<rparr> =
     Inr (Some \<lparr>current_state = ''q1'', tape = '' 1'', current_index = 0\<rparr>) \<and>
   in_bounds \<lparr>current_state = ''q2'', tape = '' 1'', current_index = 1\<rparr> \<and>
   step bounce_table \<lparr>current_state = ''q2'', tape = '' 1'', current_index = 1\<rparr> =
     Inr (Some \<lparr>current_state = ''q3'', tape = '' 1 '', current_index = 2\<rparr>) \<and>
   (\<exists>c. run_upto 3 bounce_table \<lparr>current_state = ''q0'', tape = ''1'', current_index = 0\<rparr> = Inr c \<and>
        in_bounds c)"
proof -
  let ?a = "\<lparr>current_state = ''q0'', tape = ''1'', current_index = 0\<rparr>"
  let ?b = "\<lparr>current_state = ''q2'', tape = '' 1'', current_index = 1\<rparr>"
  have ne: "''1'' \<noteq> []" by simp
  note T = head_stays_on_tape [OF ne, of bounce_table "''q0''"]
  have a: "in_bounds ?a \<and> current_index ?a = 0 \<and>
      bounce_table (current_state ?a, tape ?a ! 0) = Some (CHR ''1'', Some CHR ''<'', ''q1'')"
    by (simp add: in_bounds_def bounce_table_def)
  have b: "in_bounds ?b \<and> current_index ?b = int (length (tape ?b)) - 1 \<and>
      bounce_table (current_state ?b, tape ?b ! (length (tape ?b) - 1)) =
        Some (CHR ''1'', Some CHR ''>'', ''q3'')"
    by (simp add: in_bounds_def bounce_table_def)
  from T a have "step bounce_table ?a =
      Inr (Some \<lparr>current_state = ''q1'', tape = CHR '' '' # (tape ?a)[0 := CHR ''1''], current_index = 0\<rparr>)"
    by blast
  moreover from T b have "step bounce_table ?b =
      Inr (Some \<lparr>current_state = ''q3'', tape = (tape ?b)[length (tape ?b) - 1 := CHR ''1''] @ [CHR '' ''],
                 current_index = int (length (tape ?b))\<rparr>)"
    by blast
  moreover from T
  have "\<exists>c. run_upto 3 bounce_table ?a = Inr c \<and> in_bounds c"
    by blast
  ultimately show ?thesis
    using a b by simp
qed

section \<open>Properties of the matcher\<close>






























section \<open>Properties of the parsing loop\<close>

lemma debug_print_fields [simp]:
  "states (debug_print d n g st) = states st"
  "alphabet (debug_print d n g st) = alphabet st"
  "transitions (debug_print d n g st) = transitions st"
  "initial_state (debug_print d n g st) = initial_state st"
  "filter is_warning (stderr (debug_print d n g st)) = filter is_warning (stderr st)"
  "filter (warns_about k) (stderr (debug_print d n g st)) = filter (warns_about k) (stderr st)"
  by (simp_all add: debug_print_def)

lemma parse_loop_Cons:
  "parse_loop debug lineno (line # rest) st =
     (if skipped line then parse_loop debug (lineno + 1) rest st
      else case regex_match (strip line) of
          None \<Rightarrow> Inl (SystemExit 1, stderr st @ [Syntax_error (lineno + 1)])
        | Some grp \<Rightarrow>
            parse_loop debug (lineno + 1) rest (add_rule lineno grp (debug_print debug lineno grp st)))"
  by (simp add: debug_print_def Let_def split: option.splits)

declare parse_loop.simps(2) [simp del]

lemma add_rule_fields:
  "states (add_rule n (si, a, so, mv, so') st) = states st \<union> {si, rstrip so'}"
  "transitions (add_rule n (si, a, so, mv, so') st) =
     (transitions st)((si, a) \<mapsto> (case so of None \<Rightarrow> a | Some c \<Rightarrow> c, mv, rstrip so'))"
  "initial_state (add_rule n (si, a, so, mv, so') st) =
     (if states st = {} then Some si else initial_state st)"
  "stderr (add_rule n (si, a, so, mv, so') st) =
     (if (si, a) \<in> dom (transitions st)
      then stderr st @ [Duplicated_transition (n + 1) (si, a)] else stderr st)"
  by (simp_all add: add_rule_def Let_def)

lemma parse_loop_append:
  "parse_loop d n (xs @ ys) st =
     (case parse_loop d n xs st of Inl e \<Rightarrow> Inl e | Inr st' \<Rightarrow> parse_loop d (n + length xs) ys st')"
proof (induction xs arbitrary: n st)
  case Nil
  show ?case by simp
next
  case (Cons x xs)
  show ?case
    by (simp add: parse_loop_Cons Cons.IH split: option.splits cong: sum.case_cong)
qed

lemma parse_loop_accepted:
  "\<forall>l\<in>set ls. accepted l \<Longrightarrow> \<exists>st'. parse_loop d n ls st = Inr st'"
proof (induction ls arbitrary: n st)
  case Nil
  show ?case by simp
next
  case (Cons l ls)
  then have a: "accepted l" and r: "\<forall>l\<in>set ls. accepted l" by simp_all
  show ?case
  proof (cases "skipped l")
    case True
    with Cons.IH[OF r] show ?thesis by (simp only: parse_loop_Cons if_True)
  next
    case False
    with a obtain grp where "regex_match (strip l) = Some grp"
      by (auto simp: accepted_def)
    with False Cons.IH[OF r] show ?thesis
      by (simp only: parse_loop_Cons if_False option.case)
  qed
qed

lemma parse_loop_skipped:
  "\<forall>l\<in>set ls. skipped l \<Longrightarrow> parse_loop d n ls st = Inr st"
  by (induction ls arbitrary: n) (simp_all add: parse_loop_Cons)

lemma parse_loop_other_keys:
  "parse_loop d n ls st = Inr st' \<Longrightarrow> k \<notin> set (rule_keys ls) \<Longrightarrow>
     transitions st' k = transitions st k \<and>
     filter (warns_about k) (stderr st') = filter (warns_about k) (stderr st)"
proof (induction ls arbitrary: n st)
  case Nil
  then show ?case by simp
next
  case (Cons l ls)
  show ?case
  proof (cases "skipped l")
    case True
    then have "key_of l = None" by (simp add: key_of_def)
    with Cons True show ?thesis
      by (simp add: parse_loop_Cons)
  next
    case False
    with Cons.prems(1) obtain si a so mv so' where
      m: "regex_match (strip l) = Some (si, a, so, mv, so')"
      by (cases "regex_match (strip l)") (auto simp add: parse_loop_Cons)
    let ?st1 = "add_rule n (si, a, so, mv, so') (debug_print d n (si, a, so, mv, so') st)"
    from False m have key: "key_of l = Some (si, a)" by (simp add: key_of_def)
    with Cons.prems(2) have ne: "k \<noteq> (si, a)" and nin: "k \<notin> set (rule_keys ls)" by auto
    from Cons.prems(1) False m have "parse_loop d (n + 1) ls ?st1 = Inr st'"
      by (simp add: parse_loop_Cons)
    from Cons.IH[OF this nin] ne show ?thesis
      by (auto simp: add_rule_fields)
  qed
qed

lemma parse_loop_fresh_keys:
  "parse_loop d n ls st = Inr st' \<Longrightarrow> distinct (rule_keys ls) \<Longrightarrow>
     set (rule_keys ls) \<inter> dom (transitions st) = {} \<Longrightarrow>
     filter is_warning (stderr st') = filter is_warning (stderr st) \<and>
     dom (transitions st') = dom (transitions st) \<union> set (rule_keys ls)"
proof (induction ls arbitrary: n st)
  case Nil
  then show ?case by simp
next
  case (Cons l ls)
  show ?case
  proof (cases "skipped l")
    case True
    then have "key_of l = None" by (simp add: key_of_def)
    with Cons True show ?thesis
      by (simp add: parse_loop_Cons)
  next
    case False
    with Cons.prems(1) obtain si a so mv so' where
      m: "regex_match (strip l) = Some (si, a, so, mv, so')"
      by (cases "regex_match (strip l)") (auto simp add: parse_loop_Cons)
    let ?st1 = "add_rule n (si, a, so, mv, so') (debug_print d n (si, a, so, mv, so') st)"
    from False m have key: "key_of l = Some (si, a)" by (simp add: key_of_def)
    with Cons.prems(2,3) have fresh: "(si, a) \<notin> dom (transitions st)"
      and d: "distinct (rule_keys ls)" and nin: "(si, a) \<notin> set (rule_keys ls)"
      and disj: "set (rule_keys ls) \<inter> dom (transitions st) = {}" by auto
    from Cons.prems(1) False m have run: "parse_loop d (n + 1) ls ?st1 = Inr st'"
      by (simp add: parse_loop_Cons)
    have "set (rule_keys ls) \<inter> dom (transitions ?st1) = {}"
      using disj nin by (auto simp: add_rule_fields)
    from Cons.IH[OF run d this] fresh key show ?thesis
      by (auto simp: add_rule_fields)
  qed
qed


lemma parse_loop_initial_kept:
  "parse_loop d n ls st = Inr st' \<Longrightarrow> states st \<noteq> {} \<Longrightarrow>
     initial_state st' = initial_state st \<and> states st' \<noteq> {}"
proof (induction ls arbitrary: n st)
  case Nil
  then show ?case by simp
next
  case (Cons l ls)
  show ?case
  proof (cases "skipped l")
    case True
    with Cons show ?thesis by (simp add: parse_loop_Cons)
  next
    case False
    with Cons.prems(1) obtain si a so mv so' where
      m: "regex_match (strip l) = Some (si, a, so, mv, so')"
      by (cases "regex_match (strip l)") (auto simp add: parse_loop_Cons)
    let ?st1 = "add_rule n (si, a, so, mv, so') (debug_print d n (si, a, so, mv, so') st)"
    from Cons.prems(1) False m have run: "parse_loop d (n + 1) ls ?st1 = Inr st'"
      by (simp add: parse_loop_Cons)
    have "states ?st1 \<noteq> {}" by (simp add: add_rule_fields)
    from Cons.IH[OF run this] Cons.prems(2) show ?thesis
      by (simp add: add_rule_fields)
  qed
qed

lemma parse_loop_first_rule:
  "parse_loop d n ls st = Inr st' \<Longrightarrow> states st = {} \<Longrightarrow> initial_state st = None \<Longrightarrow>
   initial_state st' = Some q \<Longrightarrow>
     \<exists>pre l post si a so mv so'. ls = pre @ l # post \<and> (\<forall>x\<in>set pre. skipped x) \<and> \<not> skipped l \<and>
        regex_match (strip l) = Some (si, a, so, mv, so') \<and> q = si"
proof (induction ls arbitrary: n)
  case Nil
  then show ?case by simp
next
  case (Cons l ls)
  show ?case
  proof (cases "skipped l")
    case True
    with Cons.prems have "parse_loop d (n + 1) ls st = Inr st'"
      by (simp add: parse_loop_Cons)
    from Cons.IH[OF this Cons.prems(2,3,4)] obtain pre l' post si a so mv so' where
      h: "ls = pre @ l' # post" "\<forall>x\<in>set pre. skipped x" "\<not> skipped l'"
        "regex_match (strip l') = Some (si, a, so, mv, so')" "q = si"
      by blast
    from h(1) have "l # ls = (l # pre) @ l' # post" by simp
    moreover from h(2) True have "\<forall>x\<in>set (l # pre). skipped x" by simp
    ultimately show ?thesis using h(3,4,5) by blast
  next
    case False
    with Cons.prems(1) obtain si a so mv so' where
      m: "regex_match (strip l) = Some (si, a, so, mv, so')"
      by (cases "regex_match (strip l)") (auto simp add: parse_loop_Cons)
    let ?st1 = "add_rule n (si, a, so, mv, so') (debug_print d n (si, a, so, mv, so') st)"
    from Cons.prems(1) False m have run: "parse_loop d (n + 1) ls ?st1 = Inr st'"
      by (simp add: parse_loop_Cons)
    have "states ?st1 \<noteq> {}" by (simp add: add_rule_fields)
    from parse_loop_initial_kept[OF run this] Cons.prems(2,4) have "q = si"
      by (simp add: add_rule_fields)
    moreover have "l # ls = [] @ l # ls" by simp
    ultimately show ?thesis using False m by (metis empty_iff list.set(1))
  qed
qed

lemma parse_loop_bound_initial:
  "parse_loop d n ls st = Inr st' \<Longrightarrow> (states st \<noteq> {} \<longrightarrow> initial_state st \<noteq> None) \<Longrightarrow>
     rule_keys ls \<noteq> [] \<Longrightarrow> initial_state st' \<noteq> None"
proof (induction ls arbitrary: n st)
  case Nil
  then show ?case by simp
next
  case (Cons l ls)
  show ?case
  proof (cases "skipped l")
    case True
    then have "key_of l = None" by (simp add: key_of_def)
    with Cons True show ?thesis by (simp add: parse_loop_Cons)
  next
    case False
    with Cons.prems(1) obtain si a so mv so' where
      m: "regex_match (strip l) = Some (si, a, so, mv, so')"
      by (cases "regex_match (strip l)") (auto simp add: parse_loop_Cons)
    let ?st1 = "add_rule n (si, a, so, mv, so') (debug_print d n (si, a, so, mv, so') st)"
    from Cons.prems(1) False m have run: "parse_loop d (n + 1) ls ?st1 = Inr st'"
      by (simp add: parse_loop_Cons)
    have ne: "states ?st1 \<noteq> {}" by (simp add: add_rule_fields)
    have "initial_state ?st1 \<noteq> None"
      using Cons.prems(2) by (simp add: add_rule_fields)
    with parse_loop_initial_kept[OF run ne] show ?thesis by simp
  qed
qed

lemma rule_keys_append: "rule_keys (xs @ ys) = rule_keys xs @ rule_keys ys"
  by (induction xs) (simp_all split: option.splits)

lemma key_of_SomeD:
  "key_of l = Some k \<Longrightarrow>
     \<not> skipped l \<and> (\<exists>so mv so'. regex_match (strip l) = Some (fst k, snd k, so, mv, so'))"
  by (auto simp: key_of_def split: if_splits option.splits)

lemma parse_loop_dom:
  "parse_loop d n ls st = Inr st' \<Longrightarrow>
     dom (transitions st') = dom (transitions st) \<union> set (rule_keys ls)"
proof (induction ls arbitrary: n st)
  case Nil
  then show ?case by simp
next
  case (Cons l ls)
  show ?case
  proof (cases "skipped l")
    case True
    then have "key_of l = None" by (simp add: key_of_def)
    with Cons True show ?thesis by (simp add: parse_loop_Cons)
  next
    case False
    with Cons.prems(1) obtain si a so mv so' where
      m: "regex_match (strip l) = Some (si, a, so, mv, so')"
      by (cases "regex_match (strip l)") (auto simp add: parse_loop_Cons)
    let ?st1 = "add_rule n (si, a, so, mv, so') (debug_print d n (si, a, so, mv, so') st)"
    from False m have key: "key_of l = Some (si, a)" by (simp add: key_of_def)
    from Cons.prems(1) False m have run: "parse_loop d (n + 1) ls ?st1 = Inr st'"
      by (simp add: parse_loop_Cons)
    from Cons.IH[OF run] key show ?thesis
      by (auto simp: add_rule_fields)
  qed
qed



section \<open>Example lines and files\<close>

lemma skipped_examples:
  "skipped ''# adds one\<newline>''" "skipped ''\<newline>''" "skipped ''# again\<newline>''"
  by (simp_all add: skipped_def strip_defs isspace_def)

lemma increment_lines_kept:
  "\<not> skipped ''q0,1:>,q0\<newline>''" "\<not> skipped ''q0, :1,qf\<newline>''"
  by (simp_all add: skipped_def increment_line_1 increment_line_2)

lemma increment_loop:
  "parse_loop debug n [''q0,1:>,q0\<newline>'', ''q0, :1,qf\<newline>''] start =
     Inr \<lparr>states = {''q0'', ''qf''}, alphabet = {CHR ''1'', CHR '' ''}, transitions = increment_table,
          initial_state = Some ''q0'',
          stderr = (if debug
                    then [Debug_parsing (n + 1) (''q0'', CHR ''1'', None, Some CHR ''>'', ''q0''),
                          Debug_parsing (n + 2) (''q0'', CHR '' '', Some CHR ''1'', None, ''qf'')]
                    else [])\<rparr>"
  by (simp add: parse_loop_Cons increment_lines_kept increment_line_1 increment_line_2
      increment_states add_rule_def debug_print_def start_def Let_def increment_table_def
      insert_commute)

lemma broken_line:
  "strip ''q0,a\<newline>'' = ''q0,a''" "regex_match ''q0,a'' = None"
  "\<not> skipped ''q0,a\<newline>''"
  by (simp_all add: skipped_def strip_defs pattern_defs)

lemma duplicate_lines:
  "strip ''q0,a:b,>,q1\<newline>'' = ''q0,a:b,>,q1''"
  "regex_match ''q0,a:b,>,q1'' = Some (''q0'', CHR ''a'', Some CHR ''b'', Some CHR ''>'', ''q1'')"
  "strip ''q0,a:c,<,q2\<newline>'' = ''q0,a:c,<,q2''"
  "regex_match ''q0,a:c,<,q2'' = Some (''q0'', CHR ''a'', Some CHR ''c'', Some CHR ''<'', ''q2'')"
  "rstrip ''q2'' = ''q2''"
  by (simp_all add: strip_defs pattern_defs)

lemma duplicate_keys:
  "key_of ''q0,a:b,>,q1\<newline>'' = Some (''q0'', CHR ''a'')"
  "key_of ''q0,a:c,<,q2\<newline>'' = Some (''q0'', CHR ''a'')"
  "key_of ''# again\<newline>'' = None"
  by (simp_all add: key_of_def skipped_def duplicate_lines) (simp add: strip_defs isspace_def)


section \<open>A \<open><\<close> or \<open>>\<close> as the symbol written\<close>




section \<open>The extent of \<open>state_in\<close>\<close>




section \<open>The initial state\<close>

text \<open>
  Claim C3. When the parser returns, the file is some skipped lines (blank or comment),
  then a rule line, then the rest; the skipped lines leave the states set empty, and the
  initial state returned is the \<open>state_in\<close> of that first rule line. The loop body binds
  the initial state exactly when the states set is empty, after which the set is not
  empty; so no later line changes it.
\<close>

theorem initial_state_is_first_rule:
  assumes "parse_turing_machine debug (Lines ls) = (log, Inr (alph, sts, q, tbl))"
  shows "(\<exists>pre l post state_in symbol_in symbol_out movement state_out.
            ls = pre @ l # post \<and> (\<forall>x\<in>set pre. skipped x) \<and> \<not> skipped l \<and>
            parse_loop debug 0 pre start = Inr start \<and> states start = {} \<and>
            regex_match (strip l) = Some (state_in, symbol_in, symbol_out, movement, state_out) \<and>
            q = state_in) \<and>
         (\<forall>n grp st. initial_state (add_rule n grp st) =
                       (if states st = {} then Some (fst grp) else initial_state st) \<and>
                     states (add_rule n grp st) \<noteq> {}) \<and>
         (\<forall>n rest st st'. states st \<noteq> {} \<and> parse_loop debug n rest st = Inr st' \<longrightarrow>
                     initial_state st' = initial_state st)"
proof -
  from assms obtain st' where run: "parse_loop debug 0 ls start = Inr st'"
    and q: "initial_state st' = Some q"
    by (auto simp: parse_turing_machine_def split: sum.splits option.splits)
  have s0: "states start = {}" "initial_state start = None"
    by (simp_all add: start_def)
  from parse_loop_first_rule[OF run s0 q] obtain pre l post si a so mv so' where
    h: "ls = pre @ l # post" "\<forall>x\<in>set pre. skipped x" "\<not> skipped l"
       "regex_match (strip l) = Some (si, a, so, mv, so')" "q = si"
    by blast
  from h(2) have "parse_loop debug 0 pre start = Inr start"
    by (rule parse_loop_skipped)
  with h s0 have 1: "\<exists>pre l post state_in symbol_in symbol_out movement state_out.
            ls = pre @ l # post \<and> (\<forall>x\<in>set pre. skipped x) \<and> \<not> skipped l \<and>
            parse_loop debug 0 pre start = Inr start \<and> states start = {} \<and>
            regex_match (strip l) = Some (state_in, symbol_in, symbol_out, movement, state_out) \<and>
            q = state_in"
    by blast
  have 2: "initial_state (add_rule n grp st) =
             (if states st = {} then Some (fst grp) else initial_state st) \<and>
           states (add_rule n grp st) \<noteq> {}" for n grp st
    by (cases grp) (simp add: add_rule_fields)
  have 3: "states st \<noteq> {} \<and> parse_loop debug n rest st = Inr st' \<longrightarrow>
             initial_state st' = initial_state st" for n rest st st'
    using parse_loop_initial_kept by blast
  from 1 2 3 show ?thesis by blast
qed

theorem initial_state_is_first_rule_witness:
  "parse_turing_machine False
     (Lines [''# adds one\<newline>'', ''\<newline>'', ''q0,1:>,q0\<newline>'', ''q0, :1,qf\<newline>'']) =
     ([], Inr ({CHR ''1''}, {''q0'', ''qf''}, ''q0'', increment_table)) \<and>
   (\<exists>pre l post state_in symbol_in symbol_out movement state_out.
       [''# adds one\<newline>'', ''\<newline>'', ''q0,1:>,q0\<newline>'', ''q0, :1,qf\<newline>''] =
         pre @ l # post \<and>
       (\<forall>x\<in>set pre. skipped x) \<and> \<not> skipped l \<and>
       regex_match (strip l) = Some (state_in, symbol_in, symbol_out, movement, state_out) \<and>
       ''q0'' = state_in)"
proof -
  let ?ls = "[''# adds one\<newline>'', ''\<newline>'', ''q0,1:>,q0\<newline>'', ''q0, :1,qf\<newline>'']"
  have sk: "parse_loop False 0 [''# adds one\<newline>'', ''\<newline>''] start = Inr start"
    by (rule parse_loop_skipped) (simp add: skipped_examples)
  have "parse_loop False 0
          ([''# adds one\<newline>'', ''\<newline>''] @ [''q0,1:>,q0\<newline>'', ''q0, :1,qf\<newline>'']) start =
        parse_loop False (0 + length [''# adds one\<newline>'', ''\<newline>''])
          [''q0,1:>,q0\<newline>'', ''q0, :1,qf\<newline>''] start"
    by (simp only: parse_loop_append sk sum.case)
  then have p: "parse_turing_machine False (Lines ?ls) =
      ([], Inr ({CHR ''1''}, {''q0'', ''qf''}, ''q0'', increment_table))"
    by (auto simp add: parse_turing_machine_def increment_loop)
  from initial_state_is_first_rule [OF p] p show ?thesis
    by blast
qed

section \<open>Duplicate keys\<close>

text \<open>
  Claim C4. Take a file whose lines are all accepted, with two rule lines \<open>l1\<close> and, later,
  \<open>l2\<close> of the same key, no other line having that key. Parsing returns a machine; its
  table holds under that key the rule of \<open>l2\<close>; exactly one warning about that key is
  written, with the 1-based number of the line \<open>l2\<close>; and when the keys of the other rule
  lines are all different, it is the only warning written.
\<close>

theorem duplicate_key_last_wins:
  assumes acc: "\<forall>l\<in>set (A @ l1 # B @ l2 # C). accepted l"
    and k1: "key_of l1 = Some k" and k2: "key_of l2 = Some k"
    and others: "k \<notin> set (rule_keys (A @ B @ C))"
    and m2: "regex_match (strip l2) = Some (state_in, symbol_in, symbol_out, movement, state_out)"
  shows "\<exists>log alph sts q tbl.
      parse_turing_machine debug (Lines (A @ l1 # B @ l2 # C)) = (log, Inr (alph, sts, q, tbl)) \<and>
      tbl k = Some (case symbol_out of None \<Rightarrow> symbol_in | Some c \<Rightarrow> c, movement, rstrip state_out) \<and>
      filter (warns_about k) log = [Duplicated_transition (length A + length B + 2) k] \<and>
      (distinct (rule_keys (A @ B @ C)) \<longrightarrow>
         filter is_warning log = [Duplicated_transition (length A + length B + 2) k])"
proof -
  let ?pre = "A @ l1 # B"
  let ?n = "length A + length B + 1"
  let ?grp = "(state_in, symbol_in, symbol_out, movement, state_out)"
  have whole: "A @ l1 # B @ l2 # C = ?pre @ l2 # C" by simp
  have keys_pre: "rule_keys ?pre = rule_keys A @ k # rule_keys B"
    using k1 by (simp add: rule_keys_append)
  from key_of_SomeD[OF k2] m2 have ns2: "\<not> skipped l2" and k: "k = (state_in, symbol_in)"
    by auto
  from acc have "\<forall>l\<in>set ?pre. accepted l" by auto
  from parse_loop_accepted[OF this] obtain s1 where
    run1: "parse_loop debug 0 ?pre start = Inr s1" by blast
  let ?s2 = "add_rule ?n ?grp (debug_print debug ?n ?grp s1)"
  from acc have "\<forall>l\<in>set C. accepted l" by auto
  from parse_loop_accepted[OF this] obtain s3 where
    run3: "parse_loop debug (?n + 1) C ?s2 = Inr s3" by blast
  have run: "parse_loop debug 0 (A @ l1 # B @ l2 # C) start = Inr s3"
    using run1 run3 ns2 m2 by (simp only: whole parse_loop_append) (simp add: parse_loop_Cons)
  have "rule_keys (A @ l1 # B @ l2 # C) \<noteq> []"
    using k1 by (simp add: rule_keys_append)
  from parse_loop_bound_initial[OF run _ this] obtain q where q: "initial_state s3 = Some q"
    by (auto simp: start_def)
  have result: "parse_turing_machine debug (Lines (A @ l1 # B @ l2 # C)) =
      (stderr s3, Inr (alphabet s3 - {CHR '' ''}, states s3, q, transitions s3))"
    using run q by (simp add: parse_turing_machine_def)
  have dom1: "dom (transitions s1) = set (rule_keys ?pre)"
    using parse_loop_dom[OF run1] by (simp add: start_def)
  then have kin: "k \<in> dom (transitions s1)"
    by (simp add: keys_pre)
  have err2: "stderr ?s2 = stderr (debug_print debug ?n ?grp s1) @ [Duplicated_transition (?n + 1) k]"
    using kin by (simp add: add_rule_fields k)
  have kC: "k \<notin> set (rule_keys C)"
    using others by (simp add: rule_keys_append)
  have tbl: "transitions s3 k =
      Some (case symbol_out of None \<Rightarrow> symbol_in | Some c \<Rightarrow> c, movement, rstrip state_out)"
    using parse_loop_other_keys[OF run3 kC] by (simp add: add_rule_fields k)
  have kA: "k \<notin> set (rule_keys A)" and kB: "k \<notin> set (rule_keys B)"
    using others by (simp_all add: rule_keys_append)
  from acc have "\<forall>l\<in>set A. accepted l" by auto
  from parse_loop_accepted[OF this] obtain sA where
    runA: "parse_loop debug 0 A start = Inr sA" by blast
  have nsl1: "\<not> skipped l1" and "\<exists>so mv so'. regex_match (strip l1) = Some (fst k, snd k, so, mv, so')"
    using key_of_SomeD[OF k1] by auto
  then obtain so1 mv1 so1' where m1: "regex_match (strip l1) = Some (fst k, snd k, so1, mv1, so1')"
    by blast
  let ?g1 = "(fst k, snd k, so1, mv1, so1')"
  let ?sl = "add_rule (length A) ?g1 (debug_print debug (length A) ?g1 sA)"
  have runB: "parse_loop debug (length A + 1) B ?sl = Inr s1"
    using run1 runA nsl1 m1 by (simp add: parse_loop_append parse_loop_Cons)
  have wA: "filter (warns_about k) (stderr sA) = []" and tA: "transitions sA k = None"
    using parse_loop_other_keys[OF runA kA] by (simp_all add: start_def)
  have wl: "filter (warns_about k) (stderr ?sl) = []"
    using wA tA by (simp add: add_rule_fields domIff)
  have w1: "filter (warns_about k) (stderr s1) = []"
    using parse_loop_other_keys[OF runB kB] wl by simp
  have w2: "filter (warns_about k) (stderr ?s2) = [Duplicated_transition (?n + 1) k]"
    using w1 by (simp only: err2 filter_append debug_print_fields) simp
  have w3: "filter (warns_about k) (stderr s3) = [Duplicated_transition (?n + 1) k]"
    using parse_loop_other_keys[OF run3 kC] w2 by simp
  have all: "filter is_warning (stderr s3) = [Duplicated_transition (?n + 1) k]"
    if d: "distinct (rule_keys (A @ B @ C))"
  proof -
    have "distinct (rule_keys A @ k # rule_keys B)"
      using d kA kB by (auto simp: rule_keys_append)
    then have "distinct (rule_keys ?pre)"
      by (simp only: keys_pre)
    from parse_loop_fresh_keys[OF run1 this] have a1: "filter is_warning (stderr s1) = []"
      by (simp add: start_def)
    have dC: "distinct (rule_keys C)"
      using d by (simp add: rule_keys_append)
    have "dom (transitions ?s2) = set (rule_keys ?pre)"
      using dom1 kin by (auto simp: add_rule_fields k)
    moreover have "set (rule_keys ?pre) = insert k (set (rule_keys A) \<union> set (rule_keys B))"
      by (simp add: keys_pre)
    moreover have "set (rule_keys C) \<inter> (set (rule_keys A) \<union> set (rule_keys B)) = {}"
      using d by (auto simp: rule_keys_append)
    ultimately have "set (rule_keys C) \<inter> dom (transitions ?s2) = {}"
      using kC by auto
    have a2: "filter is_warning (stderr ?s2) = [Duplicated_transition (?n + 1) k]"
      using a1 by (simp only: err2 filter_append debug_print_fields) simp
    from parse_loop_fresh_keys[OF run3 dC \<open>set (rule_keys C) \<inter> dom (transitions ?s2) = {}\<close>] a2
    show ?thesis by simp
  qed
  from result tbl w3 all show ?thesis
    by (simp add: add.assoc)
qed

theorem duplicate_key_last_wins_witness:
  "\<exists>log alph sts q tbl.
     parse_turing_machine False
       (Lines [''q0,a:b,>,q1\<newline>'', ''# again\<newline>'', ''q0,a:c,<,q2\<newline>'']) =
       (log, Inr (alph, sts, q, tbl)) \<and>
     tbl (''q0'', CHR ''a'') = Some (CHR ''c'', Some CHR ''<'', ''q2'') \<and>
     filter (warns_about (''q0'', CHR ''a'')) log = [Duplicated_transition 3 (''q0'', CHR ''a'')] \<and>
     filter is_warning log = [Duplicated_transition 3 (''q0'', CHR ''a'')]"
proof -
  let ?l1 = "''q0,a:b,>,q1\<newline>''" and ?c = "''# again\<newline>''"
  let ?l2 = "''q0,a:c,<,q2\<newline>''"
  let ?k = "(''q0'', CHR ''a'')"
  have acc: "\<forall>l\<in>set ([] @ ?l1 # [?c] @ ?l2 # []). accepted l"
    using skipped_examples(3) by (simp add: accepted_def duplicate_lines)
  have others: "?k \<notin> set (rule_keys ([] @ [?c] @ []))"
    by (simp add: duplicate_keys)
  have d: "distinct (rule_keys ([] @ [?c] @ []))"
    by (simp add: duplicate_keys)
  have m2: "regex_match (strip ?l2) = Some (''q0'', CHR ''a'', Some CHR ''c'', Some CHR ''<'', ''q2'')"
    by (simp only: duplicate_lines)
  from duplicate_key_last_wins [OF acc duplicate_keys(1) duplicate_keys(2) others m2, of False]
  obtain log alph sts q tbl where
    p: "parse_turing_machine False (Lines ([] @ ?l1 # [?c] @ ?l2 # [])) = (log, Inr (alph, sts, q, tbl))"
    and t: "tbl ?k = Some (case Some CHR ''c'' of None \<Rightarrow> CHR ''a'' | Some c \<Rightarrow> c, Some CHR ''<'', rstrip ''q2'')"
    and v: "filter (warns_about ?k) log =
         [Duplicated_transition (length ([]::string list) + length [?c] + 2) ?k]"
    and w: "distinct (rule_keys ([] @ [?c] @ [])) \<longrightarrow>
         filter is_warning log = [Duplicated_transition (length ([]::string list) + length [?c] + 2) ?k]"
    by blast
  from w d have w': "filter is_warning log = [Duplicated_transition 3 ?k]" by simp
  from v have v': "filter (warns_about ?k) log = [Duplicated_transition 3 ?k]" by simp
  from t have t': "tbl ?k = Some (CHR ''c'', Some CHR ''<'', ''q2'')"
    by (simp add: duplicate_lines)
  from p have p': "parse_turing_machine False (Lines [?l1, ?c, ?l2]) = (log, Inr (alph, sts, q, tbl))"
    by simp
  from p' t' v' w' show ?thesis by blast
qed

section \<open>Syntax errors\<close>

text \<open>
  Claim C5 fails on the code for lines that have no destination state. The line
  \<open>q0,a:b,>,\<close> ends right after its direction field, and the line \<open>q0,a:b, #x\<close> has only
  a blank and a comment after its symbol field. Neither is reported: of the first the
  parser makes a rule with no movement and the state \<open>>,\<close>; of the second a rule whose
  \<open>state_out\<close> is the empty string, although the source says at that very place that the
  pattern makes \<open>state_out\<close> non-empty, and although the pattern has a lookahead that is
  there to refuse a line without a state.
\<close>

theorem line_without_state_out_accepted:
  "regex_match ''q0,a:b,>,'' = Some (''q0'', CHR ''a'', Some CHR ''b'', None, ''>,'') \<and>
   parse_turing_machine False (Lines [''q0,a:b,>,\<newline>'']) =
     ([], Inr ({CHR ''a'', CHR ''b''}, {''q0'', ''>,''}, ''q0'',
               [(''q0'', CHR ''a'') \<mapsto> (CHR ''b'', None, ''>,'')])) \<and>
   regex_match ''q0,a:b, #x'' = Some (''q0'', CHR ''a'', Some CHR ''b'', None, '' '') \<and>
   parse_turing_machine False (Lines [''q0,a:b, #x\<newline>'']) =
     ([], Inr ({CHR ''a'', CHR ''b''}, {''q0'', []}, ''q0'',
               [(''q0'', CHR ''a'') \<mapsto> (CHR ''b'', None, [])]))"
proof -
  have m1: "regex_match ''q0,a:b,>,'' = Some (''q0'', CHR ''a'', Some CHR ''b'', None, ''>,'')"
    by (simp add: pattern_defs)
  have m2: "regex_match ''q0,a:b, #x'' = Some (''q0'', CHR ''a'', Some CHR ''b'', None, '' '')"
    by (simp add: pattern_defs)
  have s: "strip ''q0,a:b,>,\<newline>'' = ''q0,a:b,>,''" "strip ''q0,a:b, #x\<newline>'' = ''q0,a:b, #x''"
    "rstrip ''>,'' = ''>,''" "rstrip '' '' = []"
    by (simp_all add: strip_defs isspace_def)
  have p1: "parse_turing_machine False (Lines [''q0,a:b,>,\<newline>'']) =
     ([], Inr ({CHR ''a'', CHR ''b''}, {''q0'', ''>,''}, ''q0'',
               [(''q0'', CHR ''a'') \<mapsto> (CHR ''b'', None, ''>,'')]))"
    by (simp add: parse_turing_machine_def parse_loop_Cons skipped_def m1 s add_rule_def
        debug_print_def start_def Let_def)
  have p2: "parse_turing_machine False (Lines [''q0,a:b, #x\<newline>'']) =
     ([], Inr ({CHR ''a'', CHR ''b''}, {''q0'', []}, ''q0'',
               [(''q0'', CHR ''a'') \<mapsto> (CHR ''b'', None, [])]))"
    by (simp add: parse_turing_machine_def parse_loop_Cons skipped_def m2 s add_rule_def
        debug_print_def start_def Let_def)
  from m1 p1 m2 p2 show ?thesis by (intro conjI)
qed

text \<open>
  A line that the pattern does not match is reported. When the first line that is
  neither skipped nor matched by the pattern comes after the accepted lines \<open>pre\<close>, parsing
  stops there whatever follows: it exits with code 1 and returns no machine, and the last
  thing written, after what the lines \<open>pre\<close> caused to be written, is the syntax error
  with the 1-based number of that line. In the example after it, the line \<open>q0,a\<close> is line
  3 of a file whose other lines are rules.
\<close>

theorem syntax_error_aborts:
  assumes "\<forall>l\<in>set pre. accepted l" and "\<not> skipped bad" and "regex_match (strip bad) = None"
  shows "\<exists>st. parse_loop debug 0 pre start = Inr st \<and>
     parse_turing_machine debug (Lines (pre @ bad # post)) =
       (stderr st @ [Syntax_error (length pre + 1)], Inl (SystemExit 1))"
proof -
  from parse_loop_accepted[OF assms(1)] obtain st where
    st: "parse_loop debug 0 pre start = Inr st" by blast
  have "parse_loop debug 0 (pre @ bad # post) start =
      Inl (SystemExit 1, stderr st @ [Syntax_error (length pre + 1)])"
    using assms(2,3) by (simp add: parse_loop_append st parse_loop_Cons)
  then show ?thesis
    using st by (simp add: parse_turing_machine_def)
qed

theorem syntax_error_aborts_witness:
  "parse_turing_machine False
     (Lines [''q0,1:>,q0\<newline>'', ''q0, :1,qf\<newline>'', ''q0,a\<newline>'',
             ''q0,1:>,q0\<newline>'']) =
     ([Syntax_error 3], Inl (SystemExit 1))"
proof -
  let ?pre = "[''q0,1:>,q0\<newline>'', ''q0, :1,qf\<newline>'']"
  have acc: "\<forall>l\<in>set ?pre. accepted l"
    by (simp add: accepted_def increment_lines_kept increment_line_1 increment_line_2)
  from syntax_error_aborts [OF acc broken_line(3), of False "[''q0,1:>,q0\<newline>'']"]
    broken_line(1,2)
  obtain st where st: "parse_loop False 0 ?pre start = Inr st"
    and r: "parse_turing_machine False (Lines (?pre @ ''q0,a\<newline>'' # [''q0,1:>,q0\<newline>''])) =
       (stderr st @ [Syntax_error (length ?pre + 1)], Inl (SystemExit 1))"
    by auto
  from st have "stderr st = []"
    by (auto simp add: increment_loop)
  with r show ?thesis by simp
qed

section \<open>The empty tape\<close>

lemma step_traced_step: "fst (step_traced tbl c) = step tbl c"
  by (simp add: step_traced_def step_def Let_def split: sum.splits option.splits prod.splits)

lemma pop_trailing_traced_fst: "fst (pop_trailing_traced t) = pop_trailing t"
proof (induction t rule: pop_trailing.induct)
  case (1 t)
  show ?case
  proof (cases "t \<noteq> [] \<and> last t = CHR '' ''")
    case True
    with 1 have ih: "fst (pop_trailing_traced (butlast t)) = pop_trailing (butlast t)" by simp
    have "pop_trailing_traced t = (case pop_trailing_traced (butlast t) of (t', es) \<Rightarrow> (t', Pop # es))"
      using True by (subst pop_trailing_traced.simps) simp
    then have "fst (pop_trailing_traced t) = fst (pop_trailing_traced (butlast t))"
      by (simp add: case_prod_unfold)
    moreover have "pop_trailing t = pop_trailing (butlast t)"
      using True by (subst pop_trailing.simps) simp
    ultimately show ?thesis using ih by simp
  next
    case False
    have "pop_trailing_traced t = (t, [])"
      using False by (subst pop_trailing_traced.simps) auto
    moreover have "pop_trailing t = t"
      using False by (subst pop_trailing.simps) auto
    ultimately show ?thesis by simp
  qed
qed

lemma pop_leading_traced_fst: "fst (pop_leading_traced t) = pop_leading t"
proof (induction t rule: pop_leading.induct)
  case (1 t)
  show ?case
  proof (cases "t \<noteq> [] \<and> hd t = CHR '' ''")
    case True
    with 1 have ih: "fst (pop_leading_traced (tl t)) = pop_leading (tl t)" by simp
    have "pop_leading_traced t = (case pop_leading_traced (tl t) of (t', es) \<Rightarrow> (t', Popleft # es))"
      using True by (subst pop_leading_traced.simps) simp
    then have "fst (pop_leading_traced t) = fst (pop_leading_traced (tl t))"
      by (simp add: case_prod_unfold)
    moreover have "pop_leading t = pop_leading (tl t)"
      using True by (subst pop_leading.simps) simp
    ultimately show ?thesis using ih by simp
  next
    case False
    have "pop_leading_traced t = (t, [])"
      using False by (subst pop_leading_traced.simps) auto
    moreover have "pop_leading t = t"
      using False by (subst pop_leading.simps) auto
    ultimately show ?thesis by simp
  qed
qed

lemma run_traced_sound:
  "run_traced tbl c tr = Some y \<Longrightarrow> run tbl c = Some (fst y)"
proof (induction rule: run_traced.raw_induct[rotated 1, consumes 1])
  case (1 run' tbl c tr y)
  obtain r es where st: "step_traced tbl c = (r, es)" by (cases "step_traced tbl c")
  then have s: "step tbl c = r" using step_traced_step[of tbl c] by simp
  show ?case
  proof (cases r)
    case (Inl e)
    with 1(2) st s show ?thesis by (subst run.simps) auto
  next
    case (Inr res)
    show ?thesis
    proof (cases res)
      case None
      with Inr 1(2) st s show ?thesis by (subst run.simps) auto
    next
      case (Some c')
      with Inr 1(2) st have "run' tbl c' (tr @ es) = Some y" by simp
      from 1(1)[OF this] Inr Some s show ?thesis by (subst run.simps) simp
    qed
  qed
qed

lemma run_traced_complete:
  "run tbl c = Some r \<Longrightarrow> \<exists>tr'. run_traced tbl c tr = Some (r, tr')"
proof (induction arbitrary: tr rule: run.raw_induct[rotated 1, consumes 1])
  case (1 run' tbl c r)
  obtain r1 es where st: "step_traced tbl c = (r1, es)" by (cases "step_traced tbl c")
  then have s: "step tbl c = r1" using step_traced_step[of tbl c] by simp
  show ?case
  proof (cases r1)
    case (Inl e)
    with 1(2) st s show ?thesis by (subst run_traced.simps) auto
  next
    case (Inr res)
    show ?thesis
    proof (cases res)
      case None
      with Inr 1(2) st s show ?thesis by (subst run_traced.simps) auto
    next
      case (Some c')
      with Inr 1(2) s have "run' tbl c' = Some r" by simp
      from 1(1)[OF this, of "tr @ es"] Inr Some st show ?thesis
        by (subst run_traced.simps) simp
    qed
  qed
qed

lemma run_traced_run: "map_option fst (run_traced tbl c tr) = run tbl c"
proof (cases "run_traced tbl c tr")
  case None
  have "run tbl c = None"
  proof (cases "run tbl c")
    case None
    then show ?thesis .
  next
    case (Some r)
    from run_traced_complete[OF this, of tr] None show ?thesis by simp
  qed
  with None show ?thesis by simp
next
  case (Some y)
  from run_traced_sound[OF this] Some show ?thesis by simp
qed

lemma run_traced_extends:
  "run_traced tbl c tr = Some y \<Longrightarrow> \<exists>es. snd y = tr @ es"
proof (induction rule: run_traced.raw_induct[rotated 1, consumes 1])
  case (1 run' tbl c tr y)
  obtain r es where st: "step_traced tbl c = (r, es)" by (cases "step_traced tbl c")
  show ?case
  proof (cases r)
    case (Inl e)
    with 1(2) st show ?thesis by auto
  next
    case (Inr res)
    show ?thesis
    proof (cases res)
      case None
      with Inr 1(2) st show ?thesis by auto
    next
      case (Some c')
      with Inr 1(2) st have "run' tbl c' (tr @ es) = Some y" by simp
      from 1(1)[OF this] obtain es' where "snd y = (tr @ es) @ es'" by blast
      then have "snd y = tr @ (es @ es')" by simp
      then show ?thesis by blast
    qed
  qed
qed

lemma simulate_traced_simulate:
  "map_option fst (simulate_traced tape0 initial tbl) = simulate_turing_machine tape0 initial tbl"
proof (cases "tape0 = []")
  case True
  then show ?thesis by (simp add: simulate_traced_def simulate_turing_machine_def)
next
  case False
  let ?c0 = "\<lparr>current_state = initial, tape = tape0, current_index = 0\<rparr>"
  show ?thesis
  proof (cases "run_traced tbl ?c0 []")
    case None
    with run_traced_run[of tbl ?c0 "[]"] have "run tbl ?c0 = None" by simp
    with None False show ?thesis
      by (simp add: simulate_traced_def simulate_turing_machine_def)
  next
    case (Some y)
    obtain r tr where y: "y = (r, tr)" by (cases y)
    with run_traced_run[of tbl ?c0 "[]"] Some have run: "run tbl ?c0 = Some r" by simp
    show ?thesis
    proof (cases r)
      case (Inl e)
      with Some y run False show ?thesis
        by (simp add: simulate_traced_def simulate_turing_machine_def)
    next
      case (Inr c)
      obtain t1 es1 where p1: "pop_trailing_traced (tape c) = (t1, es1)"
        by (cases "pop_trailing_traced (tape c)")
      obtain t2 es2 where p2: "pop_leading_traced t1 = (t2, es2)"
        by (cases "pop_leading_traced t1")
      from p1 pop_trailing_traced_fst[of "tape c"] have "t1 = pop_trailing (tape c)" by simp
      with p2 pop_leading_traced_fst[of t1] have "t2 = trim (tape c)" by (simp add: trim_def)
      with Inr Some y run False p1 p2 show ?thesis
        by (simp add: simulate_traced_def simulate_turing_machine_def)
    qed
  qed
qed

lemma first_effect:
  assumes "tape0 \<noteq> []" and "simulate_traced tape0 initial tbl = Some (r, tr)"
  shows "\<exists>es. tr = Contains (initial, hd tape0) # es"
proof -
  let ?c0 = "\<lparr>current_state = initial, tape = tape0, current_index = 0\<rparr>"
  from assms(1) have get: "tape_get tape0 0 = Inr (hd tape0)"
    by (cases tape0) (simp_all add: tape_get_def)
  obtain r1 es1 where st: "step_traced tbl ?c0 = (r1, es1)" by (cases "step_traced tbl ?c0")
  have es1: "\<exists>es. es1 = Contains (initial, hd tape0) # es"
    using st get
    by (auto simp: step_traced_def Let_def split: option.splits sum.splits prod.splits if_splits)
  from assms obtain y where y: "run_traced tbl ?c0 [] = Some y" and tr: "\<exists>es. tr = snd y @ es"
    by (auto simp: simulate_traced_def split: option.splits sum.splits prod.splits)
  have "\<exists>es. snd y = es1 @ es"
  proof (cases r1)
    case (Inl e)
    with y st show ?thesis by (subst (asm) run_traced.simps) auto
  next
    case (Inr res)
    show ?thesis
    proof (cases res)
      case None
      with Inr y st show ?thesis by (subst (asm) run_traced.simps) auto
    next
      case (Some c')
      with Inr y st have "run_traced tbl c' ([] @ es1) = Some y"
        by (subst (asm) run_traced.simps) simp
      from run_traced_extends[OF this] show ?thesis by simp
    qed
  qed
  with es1 tr show ?thesis by auto
qed

text \<open>
  Claim C9. On an empty initial tape the engine returns at once the initial state it was
  given and an empty tape, and it has then done nothing to the table or to the tape: the
  list of its lookups and mutations is empty. That list belongs to the same engine
  (leaving it out gives \<open>simulate_turing_machine\<close>), and it is not empty on any other
  tape: there the first thing the engine does is to test whether the table has the
  initial state and the first cell as a key.
\<close>

theorem empty_tape_returns_initial_state:
  "simulate_turing_machine [] initial tbl = Some (Inr (initial, [])) \<and>
   simulate_traced [] initial tbl = Some (Inr (initial, []), []) \<and>
   map_option fst (simulate_traced tape0 initial tbl) = simulate_turing_machine tape0 initial tbl \<and>
   (\<forall>r tr. tape0 \<noteq> [] \<and> simulate_traced tape0 initial tbl = Some (r, tr) \<longrightarrow>
      (\<exists>es. tr = Contains (initial, hd tape0) # es))"
proof (intro conjI allI impI)
  show "simulate_turing_machine [] initial tbl = Some (Inr (initial, []))"
    by (simp add: simulate_turing_machine_def)
  show "simulate_traced [] initial tbl = Some (Inr (initial, []), [])"
    by (simp add: simulate_traced_def)
  show "map_option fst (simulate_traced tape0 initial tbl) = simulate_turing_machine tape0 initial tbl"
    by (rule simulate_traced_simulate)
next
  fix r tr
  assume "tape0 \<noteq> [] \<and> simulate_traced tape0 initial tbl = Some (r, tr)"
  then show "\<exists>es. tr = Contains (initial, hd tape0) # es"
    using first_effect by blast
qed

lemma one_cell_no_rule:
  "simulate_traced ''1'' ''q0'' Map.empty = Some (Inr (''q0'', ''1''), [Contains (''q0'', CHR ''1'')])"
proof -
  have "run_traced Map.empty \<lparr>current_state = ''q0'', tape = ''1'', current_index = 0\<rparr> [] =
      Some (Inr \<lparr>current_state = ''q0'', tape = ''1'', current_index = 0\<rparr>, [Contains (''q0'', CHR ''1'')])"
    by (subst run_traced.simps) (simp add: step_traced_def tape_get_def)
  moreover have "pop_trailing_traced ''1'' = (''1'', [])"
    by (subst pop_trailing_traced.simps) simp
  moreover have "pop_leading_traced ''1'' = (''1'', [])"
    by (subst pop_leading_traced.simps) simp
  ultimately show ?thesis
    by (simp add: simulate_traced_def)
qed

theorem empty_tape_returns_initial_state_witness:
  "''1'' \<noteq> [] \<and>
   simulate_traced ''1'' ''q0'' Map.empty = Some (Inr (''q0'', ''1''), [Contains (''q0'', CHR ''1'')]) \<and>
   (\<exists>es. [Contains (''q0'', CHR ''1'')] = Contains (''q0'', hd ''1'') # es) \<and>
   simulate_traced [] ''q0'' Map.empty = Some (Inr (''q0'', []), [])"
proof -
  note T = empty_tape_returns_initial_state [of "''q0''" Map.empty "''1''"]
  have ne: "''1'' \<noteq> []" by simp
  from T ne one_cell_no_rule
  have "\<exists>es. [Contains (''q0'', CHR ''1'')] = Contains (''q0'', hd ''1'') # es"
    by blast
  moreover from T have "simulate_traced [] ''q0'' Map.empty = Some (Inr (''q0'', []), [])"
    by blast
  ultimately show ?thesis
    using ne one_cell_no_rule by blast
qed

end
